theory Spec2Isabelle
  imports Main
begin

section \<open>Values, rows and text helpers\<close>

text \<open>
  Go's \<^verbatim>\<open>any\<close> values that flow through raw rows: what a database driver scans into an
  \<^verbatim>\<open>interface{}\<close> (NULL, booleans, integers, text), plus the two composite shapes the
  materializer writes back into a row: a related object (\<^verbatim>\<open>map[string]any\<close>) and a list
  (\<^verbatim>\<open>[]any\<close>). A \<^verbatim>\<open>map[string]any\<close> is a partial function from column names.
\<close>

datatype val =
    VNull
  | VBool bool
  | VInt int
  | VStr string
  | VObj "string \<Rightarrow> val option"
  | VList "val list"

type_synonym row = "string \<Rightarrow> val option"

text \<open>\<^verbatim>\<open>RelationDefinition\<close> of \<^verbatim>\<open>routes/page.go\<close>.\<close>

record RelationDefinition =
  Type :: string
  FromColumn :: string
  ToTable :: string
  OnDelete :: string
  PivotTable :: string

text \<open>\<^verbatim>\<open>strings.Join\<close>.\<close>

fun join :: "string list \<Rightarrow> string \<Rightarrow> string" where
  "join [] sep = []"
| "join [x] sep = x"
| "join (x # y # ys) sep = x @ sep @ join (y # ys) sep"

text \<open>The decimal rendering of \<^verbatim>\<open>%d\<close> on a non-negative integer.\<close>

definition digit :: "nat \<Rightarrow> char" where
  "digit d = ''0123456789'' ! d"

function show_nat :: "nat \<Rightarrow> string" where
  "show_nat n = (if n < 10 then [digit n] else show_nat (n div 10) @ [digit (n mod 10)])"
  by pat_completeness auto
termination
  by (relation "measure (\<lambda>n. n)") auto

declare show_nat.simps [simp del]

text \<open>
  \<^verbatim>\<open>strings.ToLower\<close> belongs to Go's standard library and maps every Unicode letter; the
  engine is modelled for an arbitrary lower-casing function \<open>toLower\<close>. \<open>ascii_lower\<close> is
  what \<^verbatim>\<open>strings.ToLower\<close> returns on a string of ASCII bytes (the letters A to Z move to a
  to z, every other byte stays); it is the instance used when the engine is evaluated on
  concrete ASCII names.
\<close>

definition is_ascii :: "string \<Rightarrow> bool" where
  "is_ascii s = list_all (\<lambda>c. \<not> digit7 c) s"

definition lower_char :: "char \<Rightarrow> char" where
  "lower_char c =
     (case map_of (zip ''ABCDEFGHIJKLMNOPQRSTUVWXYZ'' ''abcdefghijklmnopqrstuvwxyz'') c of
        Some l \<Rightarrow> l
      | None \<Rightarrow> c)"

definition ascii_lower :: "string \<Rightarrow> string" where
  "ascii_lower s = map lower_char s"

section \<open>Identifier quoting and pivot naming\<close>

text \<open>
  \<^verbatim>\<open>quoteIdent\<close>: every double quote (byte 0x22) of the identifier is doubled
  (\<^verbatim>\<open>strings.ReplaceAll\<close>), and the result is wrapped in double quotes.
\<close>

definition dq :: char where
  "dq = CHR 0x22"

definition quoteIdent :: "string \<Rightarrow> string" where
  "quoteIdent ident = [dq] @ concat (map (\<lambda>c. if c = dq then [dq, dq] else [c]) ident) @ [dq]"

text \<open>
  \<^verbatim>\<open>pivotTableName\<close>: the explicit pivot table when it is not the empty string, else
  \<^verbatim>\<open>strings.ToLower(fmt.Sprintf("%s_%s_%s", pageTable, rel.FromColumn, rel.ToTable))\<close>, with
  \<open>toLower\<close> for \<^verbatim>\<open>strings.ToLower\<close>.
\<close>

definition pivotTableName :: "(string \<Rightarrow> string) \<Rightarrow> string \<Rightarrow> RelationDefinition \<Rightarrow> string" where
  "pivotTableName toLower pageTable rel =
     (if PivotTable rel \<noteq> [] then PivotTable rel
      else toLower (pageTable @ ''_'' @ FromColumn rel @ ''_'' @ ToTable rel))"

section \<open>The database connection\<close>

text \<open>
  Errors the engine hands back: the \<^verbatim>\<open>fmt.Errorf\<close> of \<^verbatim>\<open>InsertDynamic\<close> on an empty payload,
  \<^verbatim>\<open>sql.ErrNoRows\<close>, a failed \<^verbatim>\<open>Scan\<close>, and whatever the driver reports for a statement.
\<close>

datatype error = NoDataToInsert | ErrNoRows | ScanError | DriverError string

text \<open>What a statement returns: the column names and the rows, each a list of values.\<close>

record rowset =
  columns :: "string list"
  records :: "val list list"

text \<open>
  The storage layer is outside the repository. It is a parameter: a function from the
  database state, the query text and the bound arguments to an error or to the new state
  with the result set. \<^verbatim>\<open>db.Query\<close>, \<^verbatim>\<open>db.QueryRow\<close> and \<^verbatim>\<open>db.Exec\<close> all go through it.
  A connection pairs the database state with the log of the statements issued so far
  (query text and bound arguments), which is what query-count instrumentation observes.
\<close>

type_synonym 'db driver = "'db \<Rightarrow> string \<Rightarrow> val list \<Rightarrow> error + ('db \<times> rowset)"

record 'db conn =
  store :: 'db
  issued :: "(string \<times> val list) list"

definition run :: "'db driver \<Rightarrow> 'db conn \<Rightarrow> string \<Rightarrow> val list \<Rightarrow> (error + rowset) \<times> 'db conn" where
  "run drv c q args =
     (case drv (store c) q args of
        Inl e \<Rightarrow> (Inl e, c\<lparr>issued := issued c @ [(q, args)]\<rparr>)
      | Inr (s', rs) \<Rightarrow> (Inr rs, c\<lparr>store := s', issued := issued c @ [(q, args)]\<rparr>))"

text \<open>
  \<^verbatim>\<open>rows.Scan(ptrs...)\<close> into one \<^verbatim>\<open>interface{}\<close> per column: it fails when the number of
  destinations differs from the number of values of the row.
\<close>

definition scan_row :: "string list \<Rightarrow> val list \<Rightarrow> val list option" where
  "scan_row cols r = (if length r = length cols then Some r else None)"

definition show_int :: "int \<Rightarrow> string" where
  "show_int i = (if i < 0 then ''-'' @ show_nat (nat (- i)) else show_nat (nat i))"

text \<open>
  \<^verbatim>\<open>Scan\<close> into a \<^verbatim>\<open>string\<close> destination: NULL is an error, text is taken as it is, integers
  and booleans are rendered.
\<close>

fun scan_string :: "val \<Rightarrow> string option" where
  "scan_string VNull = None"
| "scan_string (VStr s) = Some s"
| "scan_string (VInt i) = Some (show_int i)"
| "scan_string (VBool b) = Some (if b then ''true'' else ''false'')"
| "scan_string (VObj m) = None"
| "scan_string (VList vs) = None"

text \<open>
  \<^verbatim>\<open>fmt.Sprintf("%v", v)\<close> belongs to Go's standard library; the engine is modelled for an
  arbitrary formatter \<open>fmtv\<close>, and every general theorem holds for all of them.
  \<open>sprintv\<close> is the formatter on the values a driver scans (\<^verbatim>\<open><nil>\<close> for nil, the text
  itself for a string) and on lists of them; it is the instance used when the engine is
  evaluated on concrete rows. Go prints a map with its keys sorted; a map is a function
  here and cannot be listed, so \<open>sprintv\<close> has no equation for objects, and no evaluation
  below formats one.
\<close>

fun sprintv :: "val \<Rightarrow> string" where
  "sprintv VNull = ''<nil>''"
| "sprintv (VBool b) = (if b then ''true'' else ''false'')"
| "sprintv (VInt i) = show_int i"
| "sprintv (VStr s) = s"
| "sprintv (VList vs) = ''['' @ join (map sprintv vs) '' '' @ '']''"

section \<open>Batch related-row loader\<close>

text \<open>
  The demand \<^verbatim>\<open>map[string]map[string]struct{}\<close> is a list of target tables, each with the
  list of its ids. The order of the list is the order in which \<^verbatim>\<open>range\<close> visits the map; a
  Go map holds each key once, so the tables of a demand are distinct, and so are the ids
  of one table.
\<close>

type_synonym demand = "(string \<times> string list) list"

type_synonym cache = "string \<Rightarrow> row option"

definition placeholders :: "nat \<Rightarrow> string list" where
  "placeholders n = map (\<lambda>i. ''$'' @ show_nat (i + 1)) [0..<n]"

definition select_in_query :: "string \<Rightarrow> nat \<Rightarrow> string" where
  "select_in_query table n =
     ''SELECT * FROM '' @ quoteIdent table @ '' WHERE id IN ('' @ join (placeholders n) '','' @ '')''"

text \<open>
  The loop over the columns of one scanned row: the row map is filled, and \<^verbatim>\<open>idVal\<close> is
  set whenever the column is \<^verbatim>\<open>id\<close> and its value is not nil.
\<close>

fun build_row :: "(val \<Rightarrow> string) \<Rightarrow> (string \<times> val) list \<Rightarrow> row \<times> string \<Rightarrow> row \<times> string" where
  "build_row fmtv [] acc = acc"
| "build_row fmtv ((c, v) # cvs) (r, idVal) =
     build_row fmtv cvs (r(c \<mapsto> v), if c = ''id'' \<and> v \<noteq> VNull then fmtv v else idVal)"

text \<open>The loop \<^verbatim>\<open>for rs.Next()\<close>: a row whose scan fails is skipped.\<close>

fun cache_rows :: "(val \<Rightarrow> string) \<Rightarrow> string \<Rightarrow> string list \<Rightarrow> val list list \<Rightarrow> cache \<Rightarrow> cache" where
  "cache_rows fmtv table cols [] cache = cache"
| "cache_rows fmtv table cols (r # rs) cache =
     (case scan_row cols r of
        None \<Rightarrow> cache_rows fmtv table cols rs cache
      | Some vals \<Rightarrow>
          (case build_row fmtv (zip cols vals) (Map.empty, []) of
             (rw, idVal) \<Rightarrow>
               cache_rows fmtv table cols rs
                 (if idVal \<noteq> [] then cache(table @ '':'' @ idVal \<mapsto> rw) else cache)))"

text \<open>The loop \<^verbatim>\<open>for table, idSet := range fkByTable\<close>.\<close>

fun batchLoad_loop ::
  "(val \<Rightarrow> string) \<Rightarrow> 'db driver \<Rightarrow> demand \<Rightarrow> cache \<times> 'db conn \<Rightarrow> cache \<times> 'db conn" where
  "batchLoad_loop fmtv drv [] acc = acc"
| "batchLoad_loop fmtv drv ((table, ids) # rest) (cache, c) =
     (if length ids = 0 then batchLoad_loop fmtv drv rest (cache, c)
      else
        (case run drv c (select_in_query table (length ids)) (map VStr ids) of
           (Inl e, c') \<Rightarrow> batchLoad_loop fmtv drv rest (cache, c')
         | (Inr rs, c') \<Rightarrow>
             batchLoad_loop fmtv drv rest
               (cache_rows fmtv table (columns rs) (records rs) cache, c')))"

definition batchLoadRelated ::
  "(val \<Rightarrow> string) \<Rightarrow> 'db driver \<Rightarrow> 'db conn \<Rightarrow> demand \<Rightarrow> cache \<times> 'db conn" where
  "batchLoadRelated fmtv drv c fkByTable = batchLoad_loop fmtv drv fkByTable (Map.empty, c)"

section \<open>Row materializer (the list handler of \<^verbatim>\<open>routes/page.go\<close>)\<close>

text \<open>
  A pivot table's edges, \<^verbatim>\<open>map[string][]string\<close>: left id to the right ids in the order the
  rows came. It is kept as a list of pairs because pass 1 ranges over it.
\<close>

type_synonym pairs = "(string \<times> string list) list"

type_synonym pivotData = "string \<Rightarrow> pairs option"

definition sq :: char where
  "sq = CHR 0x27"

text \<open>
  The pivot query of the list handler: the ids of the page's rows are joined with
  \<^verbatim>\<open>','\<close>, put between single quotes, and written into the query text by \<^verbatim>\<open>fmt.Sprintf\<close>.
\<close>

definition pivot_query :: "string \<Rightarrow> string list \<Rightarrow> string" where
  "pivot_query pivot allIDs =
     ''SELECT left_id, right_id FROM '' @ quoteIdent pivot @ '' WHERE left_id IN (''
       @ ([sq] @ join allIDs ([sq] @ '','' @ [sq]) @ [sq]) @ '')''"

text \<open>\<^verbatim>\<open>m[left] = append(m[left], right)\<close>.\<close>

fun append_pair :: "pairs \<Rightarrow> string \<Rightarrow> string \<Rightarrow> pairs" where
  "append_pair [] l r = [(l, [r])]"
| "append_pair ((k, rs) # m) l r =
     (if k = l then (k, rs @ [r]) # m else (k, rs) # append_pair m l r)"

text \<open>The loop over the pivot rows: \<^verbatim>\<open>rs.Scan(&left, &right)\<close>, a failed scan is skipped.\<close>

fun scan_pairs :: "val list list \<Rightarrow> pairs \<Rightarrow> pairs" where
  "scan_pairs [] m = m"
| "scan_pairs (r # rs) m =
     (case r of
        [a, b] \<Rightarrow>
          (case (scan_string a, scan_string b) of
             (Some l, Some rt) \<Rightarrow> scan_pairs rs (append_pair m l rt)
           | _ \<Rightarrow> scan_pairs rs m)
      | _ \<Rightarrow> scan_pairs rs m)"

text \<open>The ids of the raw rows: \<^verbatim>\<open>entry["id"]\<close>, when present and not nil.\<close>

fun collect_ids :: "(val \<Rightarrow> string) \<Rightarrow> row list \<Rightarrow> string list" where
  "collect_ids fmtv [] = []"
| "collect_ids fmtv (entry # es) =
     (case entry ''id'' of
        Some idv \<Rightarrow> (if idv \<noteq> VNull then fmtv idv # collect_ids fmtv es else collect_ids fmtv es)
      | None \<Rightarrow> collect_ids fmtv es)"

text \<open>The first loop over the relations: one pivot query per many-to-many relation.\<close>

fun load_pivots ::
  "'db driver \<Rightarrow> (string \<Rightarrow> string) \<Rightarrow> string \<Rightarrow> string list \<Rightarrow> RelationDefinition list
     \<Rightarrow> pivotData \<times> 'db conn \<Rightarrow> pivotData \<times> 'db conn" where
  "load_pivots drv toLower pageTable allIDs [] acc = acc"
| "load_pivots drv toLower pageTable allIDs (rel # rels) (pd, c) =
     (if Type rel \<noteq> ''many-to-many'' \<or> length allIDs = 0
      then load_pivots drv toLower pageTable allIDs rels (pd, c)
      else
        (case run drv c (pivot_query (pivotTableName toLower pageTable rel) allIDs) [] of
           (Inl e, c') \<Rightarrow> load_pivots drv toLower pageTable allIDs rels (pd, c')
         | (Inr rs, c') \<Rightarrow>
             load_pivots drv toLower pageTable allIDs rels
               (pd(pivotTableName toLower pageTable rel \<mapsto> scan_pairs (records rs) []), c')))"

text \<open>
  \<^verbatim>\<open>addFK\<close>, and the same three lines written out in the list handler: the id joins the id
  set of the table, which is created when the table has none.
\<close>

fun addFK :: "demand \<Rightarrow> string \<Rightarrow> string \<Rightarrow> demand" where
  "addFK [] table i = [(table, [i])]"
| "addFK ((t, ids) # m) table i =
     (if t = table then (t, if i \<in> set ids then ids else ids @ [i]) # m
      else (t, ids) # addFK m table i)"

text \<open>Pass 1, foreign keys: the loop over the rows for one relation.\<close>

fun collect_fk_rows :: "(val \<Rightarrow> string) \<Rightarrow> RelationDefinition \<Rightarrow> row list \<Rightarrow> demand \<Rightarrow> demand" where
  "collect_fk_rows fmtv rel [] d = d"
| "collect_fk_rows fmtv rel (entry # es) d =
     (case entry (FromColumn rel) of
        Some fk \<Rightarrow>
          (if fk \<noteq> VNull then
             (if fmtv fk = [] then collect_fk_rows fmtv rel es d
              else collect_fk_rows fmtv rel es (addFK d (ToTable rel) (fmtv fk)))
           else collect_fk_rows fmtv rel es d)
      | None \<Rightarrow> collect_fk_rows fmtv rel es d)"

fun collect_fk :: "(val \<Rightarrow> string) \<Rightarrow> RelationDefinition list \<Rightarrow> row list \<Rightarrow> demand \<Rightarrow> demand" where
  "collect_fk fmtv [] rawRows d = d"
| "collect_fk fmtv (rel # rels) rawRows d =
     (if Type rel \<noteq> ''one-to-one'' \<and> Type rel \<noteq> ''one-to-many''
      then collect_fk fmtv rels rawRows d
      else collect_fk fmtv rels rawRows (collect_fk_rows fmtv rel rawRows d))"

text \<open>Pass 1, pivots: every right id of a loaded pivot table is a demand on the target.\<close>

fun collect_m2m ::
  "(string \<Rightarrow> string) \<Rightarrow> string \<Rightarrow> pivotData \<Rightarrow> RelationDefinition list \<Rightarrow> demand \<Rightarrow> demand" where
  "collect_m2m toLower pageTable pd [] d = d"
| "collect_m2m toLower pageTable pd (rel # rels) d =
     (if Type rel \<noteq> ''many-to-many'' then collect_m2m toLower pageTable pd rels d
      else
        (case pd (pivotTableName toLower pageTable rel) of
           None \<Rightarrow> collect_m2m toLower pageTable pd rels d
         | Some prs \<Rightarrow>
             collect_m2m toLower pageTable pd rels
               (fold (\<lambda>rid acc. addFK acc (ToTable rel) rid) (concat (map snd prs)) d)))"

text \<open>
  Pass 2, the loop over the right ids of one row: the cached object when the cache has the
  key, else the right id itself.
\<close>

definition resolve_ids :: "cache \<Rightarrow> string \<Rightarrow> string list \<Rightarrow> val list" where
  "resolve_ids objCache toTable rightIDs =
     map (\<lambda>rid. case objCache (toTable @ '':'' @ rid) of
                  Some obj \<Rightarrow> VObj obj
                | None \<Rightarrow> VStr rid) rightIDs"

text \<open>
  Pass 2, the body of the loop over the relations for one row: the \<^verbatim>\<open>switch rel.Type\<close>.
  \<^verbatim>\<open>entry["id"]\<close> of a row without that column is nil.
\<close>

definition resolve_rel ::
  "(val \<Rightarrow> string) \<Rightarrow> (string \<Rightarrow> string) \<Rightarrow> string \<Rightarrow> pivotData \<Rightarrow> cache \<Rightarrow> row
     \<Rightarrow> RelationDefinition \<Rightarrow> row" where
  "resolve_rel fmtv toLower pageTable pd objCache entry rel =
     (if Type rel = ''one-to-one'' \<or> Type rel = ''one-to-many'' then
        (case entry (FromColumn rel) of
           Some fk \<Rightarrow>
             (if fk \<noteq> VNull then
                (if fmtv fk = [] then entry
                 else
                   (case objCache (ToTable rel @ '':'' @ fmtv fk) of
                      Some obj \<Rightarrow> entry(FromColumn rel \<mapsto> VObj obj)
                    | None \<Rightarrow> entry))
              else entry)
         | None \<Rightarrow> entry)
      else if Type rel = ''many-to-many'' then
        (case pd (pivotTableName toLower pageTable rel) of
           Some prs \<Rightarrow>
             (case map_of prs (fmtv (case entry ''id'' of Some v \<Rightarrow> v | None \<Rightarrow> VNull)) of
                None \<Rightarrow> entry(FromColumn rel \<mapsto> VList [])
              | Some rightIDs \<Rightarrow>
                  (if length rightIDs = 0 then entry(FromColumn rel \<mapsto> VList [])
                   else entry(FromColumn rel \<mapsto> VList (resolve_ids objCache (ToTable rel) rightIDs))))
         | None \<Rightarrow> entry(FromColumn rel \<mapsto> VList []))
      else entry)"

text \<open>The loop over the relations for one row, and the loop over the rows.\<close>

definition resolve_entry ::
  "(val \<Rightarrow> string) \<Rightarrow> (string \<Rightarrow> string) \<Rightarrow> string \<Rightarrow> pivotData \<Rightarrow> cache
     \<Rightarrow> RelationDefinition list \<Rightarrow> row \<Rightarrow> row" where
  "resolve_entry fmtv toLower pageTable pd objCache rels entry =
     foldl (resolve_rel fmtv toLower pageTable pd objCache) entry rels"

definition materialize ::
  "(val \<Rightarrow> string) \<Rightarrow> (string \<Rightarrow> string) \<Rightarrow> string \<Rightarrow> pivotData \<Rightarrow> cache
     \<Rightarrow> RelationDefinition list \<Rightarrow> row list \<Rightarrow> row list" where
  "materialize fmtv toLower pageTable pd objCache rels rawRows =
     map (resolve_entry fmtv toLower pageTable pd objCache rels) rawRows"

section \<open>Row materializer (the item handler, \<^verbatim>\<open>GET /page/:id/:itemId\<close>)\<close>

text \<open>
  The item handler resolves one row. Its pass 1 over the foreign keys calls \<^verbatim>\<open>addFK\<close> for
  every scalar that is present and not nil; it has no test on the formatted text.
\<close>

fun item_collect_fk :: "(val \<Rightarrow> string) \<Rightarrow> RelationDefinition list \<Rightarrow> row \<Rightarrow> demand \<Rightarrow> demand" where
  "item_collect_fk fmtv [] item d = d"
| "item_collect_fk fmtv (rel # rels) item d =
     (if Type rel = ''one-to-one'' \<or> Type rel = ''one-to-many'' then
        (case item (FromColumn rel) of
           Some fk \<Rightarrow>
             (if fk \<noteq> VNull then item_collect_fk fmtv rels item (addFK d (ToTable rel) (fmtv fk))
              else item_collect_fk fmtv rels item d)
         | None \<Rightarrow> item_collect_fk fmtv rels item d)
      else item_collect_fk fmtv rels item d)"

text \<open>
  The item handler's pivot data, \<^verbatim>\<open>map[string][]string\<close>: pivot table to the right ids of
  the item. Pass 2 is the \<^verbatim>\<open>switch rel.Type\<close> of the item handler; a pivot table that is not
  in the map gives the nil slice.
\<close>

type_synonym itemPivotData = "string \<Rightarrow> string list option"

definition item_resolve_rel ::
  "(val \<Rightarrow> string) \<Rightarrow> (string \<Rightarrow> string) \<Rightarrow> string \<Rightarrow> itemPivotData \<Rightarrow> cache \<Rightarrow> row
     \<Rightarrow> RelationDefinition \<Rightarrow> row" where
  "item_resolve_rel fmtv toLower pageTable pd objCache item rel =
     (if Type rel = ''one-to-one'' \<or> Type rel = ''one-to-many'' then
        (case item (FromColumn rel) of
           Some fk \<Rightarrow>
             (if fk \<noteq> VNull then
                (case objCache (ToTable rel @ '':'' @ fmtv fk) of
                   Some obj \<Rightarrow> item(FromColumn rel \<mapsto> VObj obj)
                 | None \<Rightarrow> item)
              else item)
         | None \<Rightarrow> item)
      else if Type rel = ''many-to-many'' then
        item(FromColumn rel \<mapsto>
          VList (resolve_ids objCache (ToTable rel)
                   (case pd (pivotTableName toLower pageTable rel) of
                      Some rightIDs \<Rightarrow> rightIDs
                    | None \<Rightarrow> [])))
      else item)"

section \<open>Dynamic mutation layer\<close>

text \<open>
  \<^verbatim>\<open>fields\<close> is a \<^verbatim>\<open>map[string]any\<close> that the functions range over: \<open>flds\<close> is the
  list of its columns with their values, in the order of the iteration.
\<close>

definition insert_query :: "string \<Rightarrow> string list \<Rightarrow> string" where
  "insert_query table cols =
     ''INSERT INTO '' @ quoteIdent table @ '' ('' @ join (map quoteIdent cols) '', ''
       @ '') VALUES ('' @ join (placeholders (length cols)) '', '' @ '') RETURNING id''"

text \<open>
  \<^verbatim>\<open>InsertDynamic\<close> returns the pair \<^verbatim>\<open>(newID, err)\<close>. \<^verbatim>\<open>QueryRow(...).Scan(&newID)\<close> reads
  the first row of the result into one string.
\<close>

definition InsertDynamic ::
  "'db driver \<Rightarrow> 'db conn \<Rightarrow> string \<Rightarrow> (string \<times> val) list
     \<Rightarrow> (string \<times> error option) \<times> 'db conn" where
  "InsertDynamic drv c table flds =
     (if length flds = 0 then (([], Some NoDataToInsert), c)
      else
        (case run drv c (insert_query table (map fst flds)) (map snd flds) of
           (Inl e, c') \<Rightarrow> (([], Some e), c')
         | (Inr rs, c') \<Rightarrow>
             (case records rs of
                [] \<Rightarrow> (([], Some ErrNoRows), c')
              | r # _ \<Rightarrow>
                  (case r of
                     [v] \<Rightarrow>
                       (case scan_string v of
                          Some newID \<Rightarrow> ((newID, None), c')
                        | None \<Rightarrow> (([], Some ScanError), c'))
                   | _ \<Rightarrow> (([], Some ScanError), c')))))"

definition pivot_insert_query :: "string \<Rightarrow> string" where
  "pivot_insert_query pivotTable =
     ''INSERT INTO '' @ quoteIdent pivotTable @ '' (left_id, right_id) VALUES ($1, $2)''"

text \<open>The loop of \<^verbatim>\<open>InsertPivotM2M\<close>: the first error ends it.\<close>

fun insert_edges ::
  "'db driver \<Rightarrow> 'db conn \<Rightarrow> string \<Rightarrow> string \<Rightarrow> string list \<Rightarrow> error option \<times> 'db conn" where
  "insert_edges drv c query leftID [] = (None, c)"
| "insert_edges drv c query leftID (r # rs) =
     (case run drv c query [VStr leftID, VStr r] of
        (Inl e, c') \<Rightarrow> (Some e, c')
      | (Inr res, c') \<Rightarrow> insert_edges drv c' query leftID rs)"

definition InsertPivotM2M ::
  "'db driver \<Rightarrow> 'db conn \<Rightarrow> string \<Rightarrow> string \<Rightarrow> string list \<Rightarrow> error option \<times> 'db conn" where
  "InsertPivotM2M drv c pivotTable leftID rightIDs =
     (if length rightIDs = 0 then (None, c)
      else insert_edges drv c (pivot_insert_query pivotTable) leftID rightIDs)"

definition pivot_delete_query :: "string \<Rightarrow> string" where
  "pivot_delete_query pivotTable =
     ''DELETE FROM '' @ quoteIdent pivotTable @ '' WHERE left_id = $1''"

definition ClearPivot ::
  "'db driver \<Rightarrow> 'db conn \<Rightarrow> string \<Rightarrow> string \<Rightarrow> error option \<times> 'db conn" where
  "ClearPivot drv c pivotTable leftID =
     (case run drv c (pivot_delete_query pivotTable) [VStr leftID] of
        (Inl e, c') \<Rightarrow> (Some e, c')
      | (Inr res, c') \<Rightarrow> (None, c'))"

text \<open>
  \<^verbatim>\<open>UpdateDynamic\<close>: one \<^verbatim>\<open>col = $i\<close> per field, the row id as the last argument, numbered
  \<^verbatim>\<open>len(args)\<close>.
\<close>

definition update_query :: "string \<Rightarrow> string list \<Rightarrow> string" where
  "update_query table cols =
     ''UPDATE '' @ quoteIdent table @ '' SET ''
       @ join (map (\<lambda>(col, i). quoteIdent col @ '' = $'' @ show_nat (i + 1))
                 (zip cols [0..<length cols])) '', ''
       @ '' WHERE id = $'' @ show_nat (length cols + 1)"

definition UpdateDynamic ::
  "'db driver \<Rightarrow> 'db conn \<Rightarrow> string \<Rightarrow> string \<Rightarrow> (string \<times> val) list
     \<Rightarrow> error option \<times> 'db conn" where
  "UpdateDynamic drv c table ident flds =
     (if length flds = 0 then (None, c)
      else
        (case run drv c (update_query table (map fst flds)) (map snd flds @ [VStr ident]) of
           (Inl e, c') \<Rightarrow> (Some e, c')
         | (Inr res, c') \<Rightarrow> (None, c')))"

section \<open>A storage layer with read-only tables\<close>

text \<open>
  A small storage layer on which the loader can be evaluated: a fixed list of tables, each
  with its columns and rows. It answers the loader's query on a table it has with the rows
  whose \<^verbatim>\<open>id\<close> is one of the bound arguments, and fails on every other statement (a
  table that does not exist).
\<close>

definition table_driver :: "(string \<times> rowset) list \<Rightarrow> unit driver" where
  "table_driver tabs s q args =
     (case find (\<lambda>(t, rs). q = select_in_query t (length args)) tabs of
        None \<Rightarrow> Inl (DriverError ''no such table'')
      | Some (t, rs) \<Rightarrow>
          Inr (s, rs\<lparr>records :=
                     filter (\<lambda>r. case map_of (zip (columns rs) r) ''id'' of
                                    Some v \<Rightarrow> VStr (sprintv v) \<in> set args
                                  | None \<Rightarrow> False) (records rs)\<rparr>))"

section \<open>A storage layer with one pivot table\<close>

text \<open>
  A small storage layer on which the mutation functions can be evaluated: the state is
  the list of \<^verbatim>\<open>(left_id, right_id)\<close> rows of the pivot table \<open>p\<close>. It knows the two
  statements the engine sends for that table: the insert appends a row, unless the right id
  is one of those the table refuses (a constraint), and the delete removes the rows of the
  left id. Every other statement is an error.
\<close>

definition no_rows :: rowset where
  "no_rows = \<lparr>columns = [], records = []\<rparr>"

definition pivot_table_driver :: "string \<Rightarrow> string list \<Rightarrow> (string \<times> string) list driver" where
  "pivot_table_driver p refused s q args =
     (if q = pivot_insert_query p then
        (case args of
           [VStr l, VStr r] \<Rightarrow>
             (if r \<in> set refused then Inl (DriverError ''constraint'')
              else Inr (s @ [(l, r)], no_rows))
         | _ \<Rightarrow> Inl (DriverError ''arguments''))
      else if q = pivot_delete_query p then
        (case args of
           [VStr l] \<Rightarrow> Inr (filter (\<lambda>e. fst e \<noteq> l) s, no_rows)
         | _ \<Rightarrow> Inl (DriverError ''arguments''))
      else Inl (DriverError ''statement''))"

section \<open>Pivot naming\<close>

text \<open>
  C6. For every lower-casing function, every source table name and every relation,
  \<^verbatim>\<open>pivotTableName\<close> returns the relation's explicit pivot table verbatim when it is set
  (non-empty); otherwise it returns the lower-cased text
  \<^verbatim>\<open>sourceTable_sourceColumn_targetTable\<close>, joined by underscores. With a lower-casing
  function that does on ASCII strings what \<^verbatim>\<open>strings.ToLower\<close> does there, the source table
  \<^verbatim>\<open>pages\<close> and a many-to-many relation from column \<^verbatim>\<open>tags\<close> to table \<^verbatim>\<open>tags\<close> with no
  explicit pivot name give \<^verbatim>\<open>pages_tags_tags\<close>.
\<close>

theorem pivotTableName_spec:
  "(PivotTable rel \<noteq> [] \<longrightarrow> pivotTableName toLower src rel = PivotTable rel)
   \<and> (PivotTable rel = [] \<longrightarrow>
        pivotTableName toLower src rel
          = toLower (join [src, FromColumn rel, ToTable rel] ''_''))
   \<and> ((\<forall>s. is_ascii s \<longrightarrow> toLower s = ascii_lower s) \<longrightarrow>
        pivotTableName toLower ''pages''
          \<lparr>Type = ''many-to-many'', FromColumn = ''tags'', ToTable = ''tags'',
           OnDelete = od, PivotTable = []\<rparr> = ''pages_tags_tags'')"
proof -
  have a: "is_ascii ''pages_tags_tags''"
    by (simp add: is_ascii_def)
  have l: "ascii_lower ''pages_tags_tags'' = ''pages_tags_tags''"
    by (simp add: ascii_lower_def lower_char_def)
  show ?thesis
    using a l by (auto simp: pivotTableName_def)
qed

theorem pivotTableName_spec_witness:
  "pivotTableName ascii_lower ''Pages''
     \<lparr>Type = ''many-to-many'', FromColumn = ''Tags'', ToTable = ''tags'',
      OnDelete = ''cascade'', PivotTable = ''page_tag''\<rparr> = ''page_tag''
   \<and> pivotTableName ascii_lower ''Pages''
     \<lparr>Type = ''many-to-many'', FromColumn = ''Tags'', ToTable = ''tags'',
      OnDelete = ''cascade'', PivotTable = []\<rparr> = ''pages_tags_tags''
   \<and> pivotTableName ascii_lower ''pages''
     \<lparr>Type = ''many-to-many'', FromColumn = ''tags'', ToTable = ''tags'',
      OnDelete = [], PivotTable = []\<rparr> = ''pages_tags_tags''"
  using pivotTableName_spec
    [of "\<lparr>Type = ''many-to-many'', FromColumn = ''Tags'', ToTable = ''tags'',
          OnDelete = ''cascade'', PivotTable = ''page_tag''\<rparr>" ascii_lower "''Pages''" "[]"]
    pivotTableName_spec
    [of "\<lparr>Type = ''many-to-many'', FromColumn = ''Tags'', ToTable = ''tags'',
          OnDelete = ''cascade'', PivotTable = []\<rparr>" ascii_lower "''Pages''" "[]"]
  by (simp add: ascii_lower_def lower_char_def)

section \<open>Statements through the connection\<close>

lemma run_Inl:
  "drv (store c) q args = Inl e \<Longrightarrow>
   run drv c q args = (Inl e, c\<lparr>issued := issued c @ [(q, args)]\<rparr>)"
  by (simp add: run_def)

lemma run_Inr:
  "drv (store c) q args = Inr (s', rs) \<Longrightarrow>
   run drv c q args = (Inr rs, c\<lparr>store := s', issued := issued c @ [(q, args)]\<rparr>)"
  by (simp add: run_def)

section \<open>Empty payloads\<close>

text \<open>
  C7. For every table name, \<^verbatim>\<open>InsertDynamic\<close> with an empty fields map fails with the
  empty-payload error and issues no SQL, and \<^verbatim>\<open>UpdateDynamic\<close> with an empty fields map
  returns success and issues no SQL: in both cases the connection, its statement log
  included, is the one the call started from.
\<close>

theorem empty_payload:
  "InsertDynamic drv c table [] = (([], Some NoDataToInsert), c)
   \<and> UpdateDynamic drv c table ident [] = (None, c)"
  by (simp add: InsertDynamic_def UpdateDynamic_def)

section \<open>Pivot edges\<close>





lemma insert_edges_ok:
  assumes ins: "\<forall>s l r. \<exists>s' rs. drv s q [VStr l, VStr r] = Inr (s', rs)
                  \<and> edges s' = edges s @ [(l, r)]"
  shows "\<exists>c'. insert_edges drv c q l rs = (None, c')
           \<and> edges (store c') = edges (store c) @ map (Pair l) rs"
proof (induction rs arbitrary: c)
  case Nil
  then show ?case by simp
next
  case (Cons r rs)
  from ins obtain s' res where s: "drv (store c) q [VStr l, VStr r] = Inr (s', res)"
    "edges s' = edges (store c) @ [(l, r)]" by blast
  let ?c1 = "c\<lparr>store := s', issued := issued c @ [(q, [VStr l, VStr r])]\<rparr>"
  from Cons.IH[of ?c1] obtain c' where c': "insert_edges drv ?c1 q l rs = (None, c')"
    "edges (store c') = edges (store ?c1) @ map (Pair l) rs" by blast
  with s show ?case by (simp add: run_Inr)
qed

lemma InsertPivotM2M_ok:
  assumes ins: "\<forall>s l r. \<exists>s' rs. drv s (pivot_insert_query p) [VStr l, VStr r] = Inr (s', rs)
                  \<and> edges s' = edges s @ [(l, r)]"
  shows "\<exists>c'. InsertPivotM2M drv c p l rs = (None, c')
           \<and> edges (store c') = edges (store c) @ map (Pair l) rs"
proof (cases rs)
  case Nil
  then show ?thesis by (simp add: InsertPivotM2M_def)
next
  case (Cons a list)
  then show ?thesis
    using insert_edges_ok[where edges=edges and drv=drv and q="pivot_insert_query p",
        OF ins, of c l rs]
    by (simp add: InsertPivotM2M_def)
qed

lemma ClearPivot_ok:
  assumes del: "\<forall>s l. \<exists>s' rs. drv s (pivot_delete_query p) [VStr l] = Inr (s', rs)
                  \<and> edges s' = filter (\<lambda>e. fst e \<noteq> l) (edges s)"
  shows "\<exists>c'. ClearPivot drv c p l = (None, c')
           \<and> edges (store c') = filter (\<lambda>e. fst e \<noteq> l) (edges (store c))"
proof -
  from del obtain s' res where "drv (store c) (pivot_delete_query p) [VStr l] = Inr (s', res)"
    "edges s' = filter (\<lambda>e. fst e \<noteq> l) (edges (store c))" by blast
  then show ?thesis by (simp add: ClearPivot_def run_Inr)
qed

lemma filter_fst_map_Pair:
  "filter (\<lambda>e. fst e \<noteq> l) (map (Pair l) rs) = []"
  "filter (\<lambda>e. fst e = l) (map (Pair l) rs) = map (Pair l) rs"
  by (induction rs) auto

text \<open>
  C9. On a storage layer where, for the pivot table \<open>p\<close>, the delete removes the edges of
  the left id and the insert adds the edge (\<open>edges\<close> reads the rows of the table from the
  database state): \<^verbatim>\<open>ClearPivot\<close> then \<^verbatim>\<open>InsertPivotM2M\<close> with the right ids \<open>rs\<close>, run a
  second time, succeeds and leaves for that left id exactly the edges \<open>(l, r)\<close> for \<open>r\<close> in
  \<open>rs\<close>, one per element; the table is the same as after the first run, and when \<open>rs\<close>
  has no repetition (a set of right ids) no edge is there twice.
\<close>

theorem pivot_rewrite_idempotent:
  fixes edges :: "'db \<Rightarrow> (string \<times> string) list"
  assumes del: "\<forall>s l. \<exists>s' rs. drv s (pivot_delete_query p) [VStr l] = Inr (s', rs)
                  \<and> edges s' = filter (\<lambda>e. fst e \<noteq> l) (edges s)"
      and ins: "\<forall>s l r. \<exists>s' rs. drv s (pivot_insert_query p) [VStr l, VStr r] = Inr (s', rs)
                  \<and> edges s' = edges s @ [(l, r)]"
  shows "\<exists>c1 c2 c3 c4.
           ClearPivot drv c p l = (None, c1)
         \<and> InsertPivotM2M drv c1 p l rs = (None, c2)
         \<and> ClearPivot drv c2 p l = (None, c3)
         \<and> InsertPivotM2M drv c3 p l rs = (None, c4)
         \<and> filter (\<lambda>e. fst e = l) (edges (store c4)) = map (Pair l) rs
         \<and> edges (store c4) = edges (store c2)
         \<and> (distinct rs \<longrightarrow> distinct (filter (\<lambda>e. fst e = l) (edges (store c4))))"
proof -
  obtain c1 where c1: "ClearPivot drv c p l = (None, c1)"
    "edges (store c1) = filter (\<lambda>e. fst e \<noteq> l) (edges (store c))"
    using ClearPivot_ok[where edges=edges and drv=drv and p=p, OF del] by blast
  obtain c2 where c2: "InsertPivotM2M drv c1 p l rs = (None, c2)"
    "edges (store c2) = edges (store c1) @ map (Pair l) rs"
    using InsertPivotM2M_ok[where edges=edges and drv=drv and p=p, OF ins] by blast
  obtain c3 where c3: "ClearPivot drv c2 p l = (None, c3)"
    "edges (store c3) = filter (\<lambda>e. fst e \<noteq> l) (edges (store c2))"
    using ClearPivot_ok[where edges=edges and drv=drv and p=p, OF del] by blast
  obtain c4 where c4: "InsertPivotM2M drv c3 p l rs = (None, c4)"
    "edges (store c4) = edges (store c3) @ map (Pair l) rs"
    using InsertPivotM2M_ok[where edges=edges and drv=drv and p=p, OF ins] by blast
  have e4: "edges (store c4) = filter (\<lambda>e. fst e \<noteq> l) (edges (store c)) @ map (Pair l) rs"
    using c1 c2 c3 c4 by (simp add: filter_fst_map_Pair)
  have f4: "filter (\<lambda>e. fst e = l) (edges (store c4)) = map (Pair l) rs"
    unfolding e4 by (simp add: filter_fst_map_Pair)
  have "distinct rs \<longrightarrow> distinct (map (Pair l) rs)"
    by (simp add: distinct_map inj_on_def)
  with c1 c2 c3 c4 e4 f4 show ?thesis by simp
qed

theorem pivot_rewrite_idempotent_witness:
  "store (snd (InsertPivotM2M (pivot_table_driver ''pt'' [])
       (snd (ClearPivot (pivot_table_driver ''pt'' [])
          (snd (InsertPivotM2M (pivot_table_driver ''pt'' [])
             (snd (ClearPivot (pivot_table_driver ''pt'' [])
                \<lparr>store = [(''1'', ''z''), (''2'', ''a'')], issued = []\<rparr> ''pt'' ''1''))
             ''pt'' ''1'' [''a'', ''b'']))
          ''pt'' ''1''))
       ''pt'' ''1'' [''a'', ''b'']))
   = [(''2'', ''a''), (''1'', ''a''), (''1'', ''b'')]
   \<and> distinct [''a'', ''b'']"
  using pivot_rewrite_idempotent [of "pivot_table_driver ''pt'' []" "''pt''" "\<lambda>s. s"
       "\<lparr>store = [(''1'', ''z''), (''2'', ''a'')], issued = []\<rparr>" "''1''" "[''a'', ''b'']"]
  by (simp add: pivot_table_driver_def InsertPivotM2M_def ClearPivot_def run_def
      pivot_insert_query_def pivot_delete_query_def)

section \<open>Batch loader: the queries it issues\<close>

lemma batchLoad_loop_issued:
  "issued (snd (batchLoad_loop fmtv drv d (cache, c)))
     = issued c @ map (\<lambda>(t, ids). (select_in_query t (length ids), map VStr ids))
                      (filter (\<lambda>(t, ids). ids \<noteq> []) d)"
proof (induction d arbitrary: cache c)
  case Nil
  then show ?case by simp
next
  case (Cons a d)
  obtain t ids where a: "a = (t, ids)" by (cases a)
  show ?case
  proof (cases "ids = []")
    case True
    with a Cons.IH show ?thesis by simp
  next
    case False
    show ?thesis
    proof (cases "drv (store c) (select_in_query t (length ids)) (map VStr ids)")
      case (Inl e)
      with a False Cons.IH show ?thesis by (simp add: run_Inl)
    next
      case (Inr b)
      obtain s' rs where "b = (s', rs)" by (cases b)
      with Inr a False Cons.IH show ?thesis by (simp add: run_Inr)
    qed
  qed
qed

lemma nonempty_tables_card:
  assumes "distinct (map fst d)"
  shows "length (filter (\<lambda>(t, ids). ids \<noteq> []) d)
           = card {t. \<exists>ids. (t, ids) \<in> set d \<and> ids \<noteq> []}"
proof -
  let ?f = "filter (\<lambda>(t, ids). ids \<noteq> []) d"
  have "distinct (map fst ?f)" using assms by (rule distinct_map_filter)
  then have "length ?f = card (set (map fst ?f))"
    by (metis distinct_card length_map)
  moreover have "set (map fst ?f) = {t. \<exists>ids. (t, ids) \<in> set d \<and> ids \<noteq> []}"
    by force
  ultimately show ?thesis by simp
qed

text \<open>
  C1. For every demand, \<^verbatim>\<open>batchLoadRelated\<close> issues exactly the queries
  \<^verbatim>\<open>SELECT * FROM t WHERE id IN (...)\<close> of the tables whose id set is not empty, one each, in
  the order of the iteration, with the ids as bound arguments, and no query for a table
  whose id set is empty. The tables of a demand being distinct (they are the keys of a
  map), the number of queries issued is the number of target tables with a non-empty id
  set; it depends on nothing else.
\<close>

theorem batchLoadRelated_query_count:
  "issued (snd (batchLoadRelated fmtv drv c fkByTable))
     = issued c @ map (\<lambda>(t, ids). (select_in_query t (length ids), map VStr ids))
                      (filter (\<lambda>(t, ids). ids \<noteq> []) fkByTable)
   \<and> (distinct (map fst fkByTable) \<longrightarrow>
        length (issued (snd (batchLoadRelated fmtv drv c fkByTable)))
          = length (issued c) + card {t. \<exists>ids. (t, ids) \<in> set fkByTable \<and> ids \<noteq> []})"
  by (simp add: batchLoadRelated_def batchLoad_loop_issued nonempty_tables_card)

theorem batchLoadRelated_query_count_witness:
  "distinct (map fst [(''tags'', [''1'', ''2'']), (''users'', []), (''cats'', [''7''])])
   \<and> issued (snd (batchLoadRelated sprintv (table_driver []) \<lparr>store = (), issued = []\<rparr>
        [(''tags'', [''1'', ''2'']), (''users'', []), (''cats'', [''7''])]))
     = [(select_in_query ''tags'' (length [''1'', ''2'']), [VStr ''1'', VStr ''2'']),
        (select_in_query ''cats'' (length [''7'']), [VStr ''7''])]
   \<and> length (issued (snd (batchLoadRelated sprintv (table_driver []) \<lparr>store = (), issued = []\<rparr>
        [(''tags'', [''1'', ''2'']), (''users'', []), (''cats'', [''7''])]))) = 2"
  using batchLoadRelated_query_count [of sprintv "table_driver []" "\<lparr>store = (), issued = []\<rparr>"
      "[(''tags'', [''1'', ''2'']), (''users'', []), (''cats'', [''7''])]"]
  by simp

section \<open>Batch loader: the keys of the cache\<close>

lemma build_row_distinct:
  "distinct (map fst cvs) \<Longrightarrow>
   build_row fmtv cvs (r, i)
     = (r ++ map_of cvs,
        case map_of cvs ''id'' of
          Some v \<Rightarrow> if v \<noteq> VNull then fmtv v else i
        | None \<Rightarrow> i)"
proof (induction cvs arbitrary: r i)
  case Nil
  then show ?case by simp
next
  case (Cons a cvs)
  obtain c v where a: "a = (c, v)" by (cases a)
  from Cons.prems a have nin: "map_of cvs c = None" and d: "distinct (map fst cvs)"
    by (auto simp: map_of_eq_None_iff)
  let ?i = "if c = ''id'' \<and> v \<noteq> VNull then fmtv v else i"
  have m: "r(c \<mapsto> v) ++ map_of cvs = r ++ map_of (a # cvs)"
    using nin a by (auto simp: fun_eq_iff map_add_def split: option.splits)
  have "build_row fmtv (a # cvs) (r, i) = build_row fmtv cvs (r(c \<mapsto> v), ?i)"
    by (simp add: a)
  also have "\<dots> = (r(c \<mapsto> v) ++ map_of cvs,
        case map_of cvs ''id'' of
          Some w \<Rightarrow> if w \<noteq> VNull then fmtv w else ?i
        | None \<Rightarrow> ?i)"
    by (rule Cons.IH[OF d])
  also have "\<dots> = (r ++ map_of (a # cvs),
        case map_of (a # cvs) ''id'' of
          Some w \<Rightarrow> if w \<noteq> VNull then fmtv w else i
        | None \<Rightarrow> i)"
    unfolding m using nin a by (auto split: option.splits)
  finally show ?case .
qed

lemma cache_rows_inv:
  assumes cols: "distinct cols"
      and inv: "\<And>k rw. cache k = Some rw \<Longrightarrow> Q k rw"
      and new: "\<And>rw v. rw ''id'' = Some v \<Longrightarrow> v \<noteq> VNull \<Longrightarrow> fmtv v \<noteq> []
                  \<Longrightarrow> Q (table @ '':'' @ fmtv v) rw"
      and res: "cache_rows fmtv table cols rws cache k = Some rw"
  shows "Q k rw"
  using inv res
proof (induction rws arbitrary: cache)
  case Nil
  then show ?case by simp
next
  case (Cons r rws)
  show ?case
  proof (cases "length r = length cols")
    case False
    with Cons.prems(2) have "cache_rows fmtv table cols rws cache k = Some rw"
      by (simp add: scan_row_def)
    from Cons.IH[OF Cons.prems(1) this] show ?thesis .
  next
    case True
    then have dz: "distinct (map fst (zip cols r))" using cols by simp
    let ?i = "case map_of (zip cols r) ''id'' of
                Some v \<Rightarrow> if v \<noteq> VNull then fmtv v else []
              | None \<Rightarrow> []"
    let ?rw = "map_of (zip cols r)"
    have b: "build_row fmtv (zip cols r) (Map.empty, []) = (?rw, ?i)"
      using build_row_distinct[OF dz, of fmtv Map.empty "[]"] by simp
    let ?cache = "if ?i \<noteq> [] then cache(table @ '':'' @ ?i \<mapsto> ?rw) else cache"
    have step: "cache_rows fmtv table cols (r # rws) cache = cache_rows fmtv table cols rws ?cache"
      using True b by (simp add: scan_row_def)
    have "\<And>k rw. ?cache k = Some rw \<Longrightarrow> Q k rw"
    proof -
      fix k rw assume h: "?cache k = Some rw"
      show "Q k rw"
      proof (cases "?i \<noteq> [] \<and> k = table @ '':'' @ ?i")
        case False
        with h have "cache k = Some rw" by (auto split: if_splits)
        then show ?thesis by (rule Cons.prems(1))
      next
        case True
        with h have rw: "rw = ?rw" by simp
        from True obtain v where v: "?rw ''id'' = Some v" "v \<noteq> VNull" and i: "?i = fmtv v"
          by (cases "map_of (zip cols r) ''id''") (auto split: if_splits)
        from True i have "fmtv v \<noteq> []" "k = table @ '':'' @ fmtv v" by simp_all
        with new[of ?rw v, OF v] rw show ?thesis by simp
      qed
    qed
    from Cons.IH[OF this] Cons.prems(2) step show ?thesis by simp
  qed
qed

lemma batchLoad_loop_inv:
  assumes wf: "\<forall>s q args s' rs. drv s q args = Inr (s', rs) \<longrightarrow> distinct (columns rs)"
      and inv: "\<And>k rw. cache k = Some rw \<Longrightarrow> Q k rw"
      and new: "\<And>t ids rw v. (t, ids) \<in> set d \<Longrightarrow> ids \<noteq> [] \<Longrightarrow> rw ''id'' = Some v
                  \<Longrightarrow> v \<noteq> VNull \<Longrightarrow> fmtv v \<noteq> [] \<Longrightarrow> Q (t @ '':'' @ fmtv v) rw"
      and res: "fst (batchLoad_loop fmtv drv d (cache, c)) k = Some rw"
  shows "Q k rw"
  using inv new res
proof (induction d arbitrary: cache c)
  case Nil
  then show ?case by simp
next
  case (Cons a d)
  obtain t ids where a: "a = (t, ids)" by (cases a)
  have new': "\<And>t ids rw v. (t, ids) \<in> set d \<Longrightarrow> ids \<noteq> [] \<Longrightarrow> rw ''id'' = Some v
                  \<Longrightarrow> v \<noteq> VNull \<Longrightarrow> fmtv v \<noteq> [] \<Longrightarrow> Q (t @ '':'' @ fmtv v) rw"
    by (rule Cons.prems(2)) simp_all
  show ?case
  proof (cases "ids = []")
    case True
    with a Cons.prems(3) have "fst (batchLoad_loop fmtv drv d (cache, c)) k = Some rw" by simp
    from Cons.IH[OF Cons.prems(1) new' this] show ?thesis .
  next
    case False
    show ?thesis
    proof (cases "drv (store c) (select_in_query t (length ids)) (map VStr ids)")
      case (Inl e)
      with a False Cons.prems(3)
      have "fst (batchLoad_loop fmtv drv d
               (cache, c\<lparr>issued := issued c @ [(select_in_query t (length ids), map VStr ids)]\<rparr>)) k
             = Some rw" by (simp add: run_Inl)
      from Cons.IH[OF Cons.prems(1) new' this] show ?thesis .
    next
      case (Inr b)
      obtain s' rs where b: "b = (s', rs)" by (cases b)
      with Inr wf have dc: "distinct (columns rs)" by blast
      let ?cache = "cache_rows fmtv t (columns rs) (records rs) cache"
      from Inr b a False Cons.prems(3)
      have r: "fst (batchLoad_loop fmtv drv d
               (?cache, c\<lparr>store := s', issued := issued c @ [(select_in_query t (length ids), map VStr ids)]\<rparr>)) k
             = Some rw" by (simp add: run_Inr)
      have tin: "(t, ids) \<in> set (a # d)" using a by simp
      have "\<And>k rw. ?cache k = Some rw \<Longrightarrow> Q k rw"
      proof -
        fix k rw assume h: "?cache k = Some rw"
        show "Q k rw"
        proof (rule cache_rows_inv[where Q=Q and cache=cache and fmtv=fmtv and table=t, OF dc _ _ h])
          show "\<And>k rw. cache k = Some rw \<Longrightarrow> Q k rw" by (rule Cons.prems(1))
          show "\<And>rw v. rw ''id'' = Some v \<Longrightarrow> v \<noteq> VNull \<Longrightarrow> fmtv v \<noteq> []
                  \<Longrightarrow> Q (t @ '':'' @ fmtv v) rw"
            by (rule Cons.prems(2)[OF tin False])
        qed
      qed
      from Cons.IH[OF this new' r] show ?thesis .
    qed
  qed
qed

lemma cache_rows_append:
  "cache_rows fmtv t cols (xs @ ys) cache = cache_rows fmtv t cols ys (cache_rows fmtv t cols xs cache)"
  by (induction xs arbitrary: cache) (auto split: option.splits prod.splits)

lemma cache_rows_skip:
  assumes cols: "distinct cols"
      and noid: "map_of (zip cols r) ''id'' = None \<or> map_of (zip cols r) ''id'' = Some VNull
                 \<or> (\<exists>v. map_of (zip cols r) ''id'' = Some v \<and> fmtv v = [])"
  shows "cache_rows fmtv t cols (pre @ r # post) cache = cache_rows fmtv t cols (pre @ post) cache"
proof -
  have "cache_rows fmtv t cols [r] cch = cch" for cch
  proof (cases "length r = length cols")
    case False
    then show ?thesis by (simp add: scan_row_def)
  next
    case True
    then have dz: "distinct (map fst (zip cols r))" using cols by simp
    from noid have "(case map_of (zip cols r) ''id'' of
                       Some v \<Rightarrow> if v \<noteq> VNull then fmtv v else []
                     | None \<Rightarrow> []) = []"
      by (auto split: option.splits)
    with True build_row_distinct[OF dz, of fmtv Map.empty "[]"] show ?thesis
      by (simp add: scan_row_def)
  qed
  then have "cache_rows fmtv t cols (r # post) cch = cache_rows fmtv t cols post cch" for cch
    using cache_rows_append[of fmtv t cols "[r]" post cch] by simp
  then show ?thesis
    by (simp add: cache_rows_append[of _ _ _ pre])
qed

lemma table_driver_columns:
  "table_driver tabs s q args = Inr (s', rs) \<Longrightarrow> \<exists>t rs0. (t, rs0) \<in> set tabs \<and> columns rs = columns rs0"
proof -
  assume a: "table_driver tabs s q args = Inr (s', rs)"
  then obtain t rs0 where f: "find (\<lambda>(t, rs). q = select_in_query t (length args)) tabs = Some (t, rs0)"
    by (auto simp: table_driver_def split: option.splits)
  then have "(t, rs0) \<in> set tabs" by (metis find_Some_iff nth_mem)
  moreover from a f have "columns rs = columns rs0" by (auto simp: table_driver_def)
  ultimately show ?thesis by blast
qed

lemma placeholders_1: "placeholders (Suc 0) = [''$1'']"
  by (simp add: placeholders_def show_nat.simps digit_def)

text \<open>
  C10. When the result sets have distinct column names (the columns of one table), every
  entry of the cache that \<^verbatim>\<open>batchLoadRelated\<close> returns is keyed \<^verbatim>\<open>table:id\<close> for a table of
  the demand with a non-empty id set, where \<^verbatim>\<open>id\<close> is the formatted value of the \<^verbatim>\<open>id\<close>
  column of the very row the key maps to; that value is not nil and its text is not empty.
  A returned row whose \<^verbatim>\<open>id\<close> column is absent, nil, or formats to the empty text is left
  out: the cache is the one obtained without that row.
\<close>

theorem cache_keys_agree:
  assumes wf: "\<forall>s q args s' rs. drv s q args = Inr (s', rs) \<longrightarrow> distinct (columns rs)"
  shows "(\<forall>k rw. fst (batchLoadRelated fmtv drv c d) k = Some rw \<longrightarrow>
            (\<exists>t ids v. (t, ids) \<in> set d \<and> ids \<noteq> [] \<and> rw ''id'' = Some v \<and> v \<noteq> VNull
                \<and> fmtv v \<noteq> [] \<and> k = t @ '':'' @ fmtv v))
       \<and> (\<forall>t cols r pre post cache.
            distinct cols
            \<and> (map_of (zip cols r) ''id'' = None \<or> map_of (zip cols r) ''id'' = Some VNull
                 \<or> (\<exists>v. map_of (zip cols r) ''id'' = Some v \<and> fmtv v = []))
            \<longrightarrow> cache_rows fmtv t cols (pre @ r # post) cache
                  = cache_rows fmtv t cols (pre @ post) cache)"
proof (intro conjI allI impI)
  fix k rw
  assume h: "fst (batchLoadRelated fmtv drv c d) k = Some rw"
  let ?Q = "\<lambda>k rw. \<exists>t ids v. (t, ids) \<in> set d \<and> ids \<noteq> [] \<and> rw ''id'' = Some v \<and> v \<noteq> VNull
                \<and> fmtv v \<noteq> [] \<and> k = t @ '':'' @ fmtv v"
  show "?Q k rw"
  proof (rule batchLoad_loop_inv[where Q="?Q" and d=d and cache=Map.empty and c=c and fmtv=fmtv,
        OF wf _ _ h[unfolded batchLoadRelated_def]])
    show "\<And>k rw. Map.empty k = Some rw \<Longrightarrow> ?Q k rw" by simp
    show "\<And>t ids rw v. (t, ids) \<in> set d \<Longrightarrow> ids \<noteq> [] \<Longrightarrow> rw ''id'' = Some v
            \<Longrightarrow> v \<noteq> VNull \<Longrightarrow> fmtv v \<noteq> [] \<Longrightarrow> ?Q (t @ '':'' @ fmtv v) rw"
      by blast
  qed
next
  fix t cols r pre post cache
  assume "distinct cols
            \<and> (map_of (zip cols r) ''id'' = None \<or> map_of (zip cols r) ''id'' = Some VNull
                 \<or> (\<exists>v. map_of (zip cols r) ''id'' = Some v \<and> fmtv v = []))"
  then show "cache_rows fmtv t cols (pre @ r # post) cache
                  = cache_rows fmtv t cols (pre @ post) cache"
    using cache_rows_skip[of cols r fmtv t pre post cache] by blast
qed

theorem cache_keys_agree_witness:
  "distinct [''id'', ''name'']
   \<and> fst (batchLoadRelated sprintv
        (table_driver [(''tags'', \<lparr>columns = [''id'', ''name''],
                                records = [[VStr ''7'', VStr ''go'']]\<rparr>)])
        \<lparr>store = (), issued = []\<rparr> [(''tags'', [''7''])]) ''tags:7''
     = Some [''id'' \<mapsto> VStr ''7'', ''name'' \<mapsto> VStr ''go'']
   \<and> cache_rows sprintv ''tags'' [''id'', ''name'']
        ([] @ [VNull, VStr ''lost''] # [[VStr ''7'', VStr ''go'']]) Map.empty
     = cache_rows sprintv ''tags'' [''id'', ''name''] ([] @ [[VStr ''7'', VStr ''go'']]) Map.empty"
proof -
  let ?tabs = "[(''tags'', \<lparr>columns = [''id'', ''name''],
                              records = [[VStr ''7'', VStr ''go'']]\<rparr>)]"
  have wf: "\<forall>s q args s' rs. table_driver ?tabs s q args = Inr (s', rs) \<longrightarrow> distinct (columns rs)"
    by (auto dest!: table_driver_columns)
  have ev: "fst (batchLoadRelated sprintv (table_driver ?tabs)
        \<lparr>store = (), issued = []\<rparr> [(''tags'', [''7''])]) ''tags:7''
     = Some [''id'' \<mapsto> VStr ''7'', ''name'' \<mapsto> VStr ''go'']"
    by (simp add: batchLoadRelated_def run_def table_driver_def select_in_query_def
        quoteIdent_def dq_def placeholders_1 scan_row_def)
  note skip = cache_keys_agree[OF wf, of sprintv "\<lparr>store = (), issued = []\<rparr>" "[(''tags'', [''7''])]",
      THEN conjunct2, rule_format]
  have "cache_rows sprintv ''tags'' [''id'', ''name'']
        ([] @ [VNull, VStr ''lost''] # [[VStr ''7'', VStr ''go'']]) Map.empty
     = cache_rows sprintv ''tags'' [''id'', ''name''] ([] @ [[VStr ''7'', VStr ''go'']]) Map.empty"
    by (rule skip) simp
  with ev show ?thesis by simp
qed

section \<open>Batch loader: a target table that fails\<close>

lemma batchLoad_loop_skip_failed:
  assumes fail: "\<forall>s n args. \<exists>e. drv s (select_in_query t n) args = Inl e"
  shows "store c = store c2 \<Longrightarrow>
         fst (batchLoad_loop fmtv drv d (cache, c))
           = fst (batchLoad_loop fmtv drv (filter (\<lambda>e. fst e \<noteq> t) d) (cache, c2))
         \<and> store (snd (batchLoad_loop fmtv drv d (cache, c)))
           = store (snd (batchLoad_loop fmtv drv (filter (\<lambda>e. fst e \<noteq> t) d) (cache, c2)))"
proof (induction d arbitrary: cache c c2)
  case Nil
  then show ?case by simp
next
  case (Cons a d)
  obtain t' ids where a: "a = (t', ids)" by (cases a)
  let ?q = "select_in_query t' (length ids)"
  let ?log = "\<lambda>c::'a conn. c\<lparr>issued := issued c @ [(?q, map VStr ids)]\<rparr>"
  show ?case
  proof (cases "ids = []")
    case True
    with a Cons.IH[OF Cons.prems] show ?thesis by simp
  next
    case False
    show ?thesis
    proof (cases "drv (store c) ?q (map VStr ids)")
      case (Inl e)
      have l: "batchLoad_loop fmtv drv (a # d) (cache, c) = batchLoad_loop fmtv drv d (cache, ?log c)"
        using a False Inl by (simp add: run_Inl)
      show ?thesis
      proof (cases "t' = t")
        case True
        then have "filter (\<lambda>e. fst e \<noteq> t) (a # d) = filter (\<lambda>e. fst e \<noteq> t) d"
          using a by simp
        with l Cons.IH[of "?log c" c2 cache] Cons.prems show ?thesis by simp
      next
        case neq: False
        from Inl Cons.prems have "drv (store c2) ?q (map VStr ids) = Inl e" by simp
        then have r: "batchLoad_loop fmtv drv (filter (\<lambda>e. fst e \<noteq> t) (a # d)) (cache, c2)
            = batchLoad_loop fmtv drv (filter (\<lambda>e. fst e \<noteq> t) d) (cache, ?log c2)"
          using a False neq by (simp add: run_Inl)
        from l r Cons.IH[of "?log c" "?log c2" cache] Cons.prems show ?thesis by simp
      qed
    next
      case (Inr b)
      obtain s' rs where b: "b = (s', rs)" by (cases b)
      from fail obtain e where "drv (store c) (select_in_query t (length ids)) (map VStr ids) = Inl e"
        by blast
      with Inr have neq: "t' \<noteq> t" by auto
      let ?cache = "cache_rows fmtv t' (columns rs) (records rs) cache"
      let ?upd = "\<lambda>c::'a conn. c\<lparr>store := s', issued := issued c @ [(?q, map VStr ids)]\<rparr>"
      have l: "batchLoad_loop fmtv drv (a # d) (cache, c) = batchLoad_loop fmtv drv d (?cache, ?upd c)"
        using a False Inr b by (simp add: run_Inr)
      from Inr b Cons.prems have "drv (store c2) ?q (map VStr ids) = Inr (s', rs)" by simp
      then have r: "batchLoad_loop fmtv drv (filter (\<lambda>e. fst e \<noteq> t) (a # d)) (cache, c2)
            = batchLoad_loop fmtv drv (filter (\<lambda>e. fst e \<noteq> t) d) (?cache, ?upd c2)"
        using a False neq by (simp add: run_Inr)
      from l r Cons.IH[of "?upd c" "?upd c2" ?cache] show ?thesis by simp
    qed
  qed
qed

lemma resolve_rel_fk_missing:
  "Type rel = ''one-to-one'' \<or> Type rel = ''one-to-many'' \<Longrightarrow>
   entry (FromColumn rel) = Some fk \<Longrightarrow>
   objCache (ToTable rel @ '':'' @ fmtv fk) = None \<Longrightarrow>
   resolve_rel fmtv toLower pageTable pd objCache entry rel = entry"
  by (auto simp: resolve_rel_def)

text \<open>
  C5, as the claim states it, fails where two target tables yield the same cache key. The
  table \<^verbatim>\<open>a\<close> does not exist, so its query fails; the table \<^verbatim>\<open>a:b\<close> has a row with id
  \<^verbatim>\<open>c\<close>, cached under \<^verbatim>\<open>a:b:c\<close>. The foreign key \<^verbatim>\<open>b:c\<close> of a relation to the failed table
  \<^verbatim>\<open>a\<close> has the same key, and is replaced by that object instead of staying a raw id.
\<close>

theorem failed_table_key_clash_counterexample:
  "table_driver
     [(''a:b'', \<lparr>columns = [''id'', ''name''], records = [[VStr ''c'', VStr ''x'']]\<rparr>)]
     () (select_in_query ''a'' (length [''b:c''])) (map VStr [''b:c''])
     = Inl (DriverError ''no such table'')
   \<and> resolve_rel sprintv ascii_lower ''pages'' Map.empty
       (fst (batchLoadRelated sprintv
          (table_driver
             [(''a:b'', \<lparr>columns = [''id'', ''name''], records = [[VStr ''c'', VStr ''x'']]\<rparr>)])
          \<lparr>store = (), issued = []\<rparr>
          [(''a'', [''b:c'']), (''a:b'', [''c''])]))
       [''owner'' \<mapsto> VStr ''b:c'']
       \<lparr>Type = ''one-to-one'', FromColumn = ''owner'', ToTable = ''a'',
        OnDelete = [], PivotTable = []\<rparr> ''owner''
     = Some (VObj [''id'' \<mapsto> VStr ''c'', ''name'' \<mapsto> VStr ''x''])"
  by (simp add: batchLoadRelated_def run_def table_driver_def select_in_query_def
      quoteIdent_def dq_def placeholders_1 scan_row_def resolve_rel_def)

text \<open>
  C5, amended. When every query on the target table \<open>t\<close> fails, \<^verbatim>\<open>batchLoadRelated\<close>
  still returns a cache, with no error: the cache and the database state are the ones it
  returns for the demand without \<open>t\<close>, so the load of every other table is unaffected.
  A foreign key of a one-to-one or one-to-many relation to \<open>t\<close> stays in the row as the
  raw scalar, and the right ids of a many-to-many relation to \<open>t\<close> stay raw id strings,
  unless the load of another table has put a row under the same \<^verbatim>\<open>table:id\<close> key.
\<close>

theorem failed_table_skipped:
  assumes fail: "\<forall>s n args. \<exists>e. drv s (select_in_query t n) args = Inl e"
  shows "fst (batchLoadRelated fmtv drv c d)
           = fst (batchLoadRelated fmtv drv c (filter (\<lambda>e. fst e \<noteq> t) d))
       \<and> store (snd (batchLoadRelated fmtv drv c d))
           = store (snd (batchLoadRelated fmtv drv c (filter (\<lambda>e. fst e \<noteq> t) d)))
       \<and> (\<forall>rel entry fk.
            (Type rel = ''one-to-one'' \<or> Type rel = ''one-to-many'') \<and> ToTable rel = t
            \<and> entry (FromColumn rel) = Some fk
            \<and> fst (batchLoadRelated fmtv drv c (filter (\<lambda>e. fst e \<noteq> t) d))
                 (t @ '':'' @ fmtv fk) = None
            \<longrightarrow> resolve_rel fmtv toLower pageTable pd (fst (batchLoadRelated fmtv drv c d)) entry rel
                  = entry)
       \<and> (\<forall>rightIDs.
            (\<forall>rid \<in> set rightIDs.
               fst (batchLoadRelated fmtv drv c (filter (\<lambda>e. fst e \<noteq> t) d))
                 (t @ '':'' @ rid) = None)
            \<longrightarrow> resolve_ids (fst (batchLoadRelated fmtv drv c d)) t rightIDs
                  = map VStr rightIDs)"
proof -
  have eq: "fst (batchLoadRelated fmtv drv c d)
           = fst (batchLoadRelated fmtv drv c (filter (\<lambda>e. fst e \<noteq> t) d))
       \<and> store (snd (batchLoadRelated fmtv drv c d))
           = store (snd (batchLoadRelated fmtv drv c (filter (\<lambda>e. fst e \<noteq> t) d)))"
    unfolding batchLoadRelated_def
    by (rule batchLoad_loop_skip_failed[OF fail]) simp
  then show ?thesis by (auto simp: resolve_rel_fk_missing resolve_ids_def)
qed

theorem failed_table_skipped_witness:
  "(\<forall>s n args. \<exists>e.
      table_driver
        [(''tags'', \<lparr>columns = [''id'', ''name''], records = [[VStr ''7'', VStr ''go'']]\<rparr>)]
        s (select_in_query ''users'' n) args = Inl e)
   \<and> fst (batchLoadRelated sprintv
        (table_driver
           [(''tags'', \<lparr>columns = [''id'', ''name''], records = [[VStr ''7'', VStr ''go'']]\<rparr>)])
        \<lparr>store = (), issued = []\<rparr> [(''users'', [''5'']), (''tags'', [''7''])])
     = fst (batchLoadRelated sprintv
        (table_driver
           [(''tags'', \<lparr>columns = [''id'', ''name''], records = [[VStr ''7'', VStr ''go'']]\<rparr>)])
        \<lparr>store = (), issued = []\<rparr> [(''tags'', [''7''])])
   \<and> resolve_rel sprintv ascii_lower ''pages'' Map.empty
        (fst (batchLoadRelated sprintv
          (table_driver
             [(''tags'', \<lparr>columns = [''id'', ''name''], records = [[VStr ''7'', VStr ''go'']]\<rparr>)])
          \<lparr>store = (), issued = []\<rparr> [(''users'', [''5'']), (''tags'', [''7''])]))
        [''author'' \<mapsto> VStr ''5'']
        \<lparr>Type = ''one-to-one'', FromColumn = ''author'', ToTable = ''users'',
         OnDelete = [], PivotTable = []\<rparr>
     = [''author'' \<mapsto> VStr ''5'']
   \<and> resolve_ids
        (fst (batchLoadRelated sprintv
          (table_driver
             [(''tags'', \<lparr>columns = [''id'', ''name''], records = [[VStr ''7'', VStr ''go'']]\<rparr>)])
          \<lparr>store = (), issued = []\<rparr> [(''users'', [''5'']), (''tags'', [''7''])]))
        ''users'' [''5'']
     = [VStr ''5'']"
proof -
  let ?drv = "table_driver
        [(''tags'', \<lparr>columns = [''id'', ''name''], records = [[VStr ''7'', VStr ''go'']]\<rparr>)]"
  have fail: "\<forall>s n args. \<exists>e. ?drv s (select_in_query ''users'' n) args = Inl e"
    by (simp add: table_driver_def select_in_query_def quoteIdent_def dq_def)
  note inst = failed_table_skipped[OF fail, of sprintv "\<lparr>store = (), issued = []\<rparr>"
      "[(''users'', [''5'']), (''tags'', [''7''])]" ascii_lower "''pages''" Map.empty]
  have none: "fst (batchLoadRelated sprintv ?drv \<lparr>store = (), issued = []\<rparr>
      (filter (\<lambda>e. fst e \<noteq> ''users'') [(''users'', [''5'']), (''tags'', [''7''])])) (''users'' @ '':'' @ sprintv (VStr ''5'')) = None"
    by (simp add: batchLoadRelated_def run_def table_driver_def select_in_query_def
        quoteIdent_def dq_def placeholders_1 scan_row_def)
  from inst have c1: "fst (batchLoadRelated sprintv ?drv \<lparr>store = (), issued = []\<rparr>
               [(''users'', [''5'']), (''tags'', [''7''])])
     = fst (batchLoadRelated sprintv ?drv \<lparr>store = (), issued = []\<rparr> [(''tags'', [''7''])])"
    by simp
  from inst[THEN conjunct2, THEN conjunct2, THEN conjunct1, rule_format,
      of "\<lparr>Type = ''one-to-one'', FromColumn = ''author'', ToTable = ''users'',
         OnDelete = [], PivotTable = []\<rparr>" "[''author'' \<mapsto> VStr ''5'']" "VStr ''5''"] none
  have c2: "resolve_rel sprintv ascii_lower ''pages'' Map.empty
        (fst (batchLoadRelated sprintv ?drv \<lparr>store = (), issued = []\<rparr>
           [(''users'', [''5'']), (''tags'', [''7''])]))
        [''author'' \<mapsto> VStr ''5'']
        \<lparr>Type = ''one-to-one'', FromColumn = ''author'', ToTable = ''users'',
         OnDelete = [], PivotTable = []\<rparr>
     = [''author'' \<mapsto> VStr ''5'']"
    by simp
  from inst[THEN conjunct2, THEN conjunct2, THEN conjunct2, rule_format, of "[''5'']"] none
  have c3: "resolve_ids
        (fst (batchLoadRelated sprintv ?drv \<lparr>store = (), issued = []\<rparr>
           [(''users'', [''5'']), (''tags'', [''7''])])) ''users'' [''5'']
     = [VStr ''5'']"
    by simp
  from fail c1 c2 c3 show ?thesis by blast
qed

section \<open>Row materializer\<close>

lemma addFK_demand:
  "(\<exists>ids. (t', ids) \<in> set (addFK d t i) \<and> i' \<in> set ids)
     \<longleftrightarrow> (\<exists>ids. (t', ids) \<in> set d \<and> i' \<in> set ids) \<or> (t' = t \<and> i' = i)"
proof (induction d)
  case Nil
  then show ?case by auto
next
  case (Cons a d)
  obtain k ks where a: "a = (k, ks)" by (cases a)
  show ?case
  proof (cases "k = t")
    case True
    have "(\<exists>ids. (t', ids) \<in> set ((k, if i \<in> set ks then ks else ks @ [i]) # d) \<and> i' \<in> set ids)
       \<longleftrightarrow> (\<exists>ids. (t', ids) \<in> set ((k, ks) # d) \<and> i' \<in> set ids) \<or> (t' = t \<and> i' = i)"
      using True by (cases "i \<in> set ks") (auto 4 4)
    with True a show ?thesis by simp
  next
    case False
    have "(\<exists>ids. (t', ids) \<in> set ((k, ks) # addFK d t i) \<and> i' \<in> set ids)
       \<longleftrightarrow> (t' = k \<and> i' \<in> set ks) \<or> (\<exists>ids. (t', ids) \<in> set (addFK d t i) \<and> i' \<in> set ids)"
      by auto
    also have "\<dots> \<longleftrightarrow> (t' = k \<and> i' \<in> set ks) \<or> (\<exists>ids. (t', ids) \<in> set d \<and> i' \<in> set ids) \<or> (t' = t \<and> i' = i)"
      using Cons.IH by simp
    also have "\<dots> \<longleftrightarrow> (\<exists>ids. (t', ids) \<in> set ((k, ks) # d) \<and> i' \<in> set ids) \<or> (t' = t \<and> i' = i)"
      by auto
    finally show ?thesis using False a by simp
  qed
qed

lemma addFK_keys: "fst ` set (addFK d t i) = insert t (fst ` set d)"
proof (induction d)
  case Nil
  then show ?case by simp
next
  case (Cons a d)
  obtain k ks where a: "a = (k, ks)" by (cases a)
  show ?case
  proof (cases "k = t")
    case True
    with a show ?thesis by auto
  next
    case False
    with a Cons.IH show ?thesis by auto
  qed
qed

lemma addFK_distinct: "distinct (map fst d) \<Longrightarrow> distinct (map fst (addFK d t i))"
proof (induction d)
  case Nil
  then show ?case by simp
next
  case (Cons a d)
  obtain k ks where a: "a = (k, ks)" by (cases a)
  show ?case
  proof (cases "k = t")
    case True
    with a Cons.prems show ?thesis by simp
  next
    case False
    with a Cons addFK_keys[of d t i] show ?thesis by auto
  qed
qed

lemma collect_fk_rows_demand:
  "(\<exists>ids. (t, ids) \<in> set (collect_fk_rows fmtv rel rws d) \<and> i \<in> set ids)
     \<longleftrightarrow> (\<exists>ids. (t, ids) \<in> set d \<and> i \<in> set ids)
         \<or> (t = ToTable rel
             \<and> (\<exists>entry \<in> set rws. \<exists>fk. entry (FromColumn rel) = Some fk \<and> fk \<noteq> VNull
                    \<and> fmtv fk = i \<and> i \<noteq> []))"
proof (induction rws arbitrary: d)
  case Nil
  then show ?case by simp
next
  case (Cons entry rws)
  show ?case
  proof (cases "entry (FromColumn rel)")
    case None
    then show ?thesis using Cons.IH[of d] by auto
  next
    case (Some fk)
    show ?thesis
    proof (cases "fk \<noteq> VNull \<and> fmtv fk \<noteq> []")
      case True
      with Some have "collect_fk_rows fmtv rel (entry # rws) d
          = collect_fk_rows fmtv rel rws (addFK d (ToTable rel) (fmtv fk))" by simp
      then show ?thesis
        using Cons.IH[of "addFK d (ToTable rel) (fmtv fk)"] Some True
        by (auto simp: addFK_demand)
    next
      case False
      with Some have "collect_fk_rows fmtv rel (entry # rws) d = collect_fk_rows fmtv rel rws d"
        by auto
      then show ?thesis using Cons.IH[of d] Some False by auto
    qed
  qed
qed

lemma collect_fk_demand:
  "(\<exists>ids. (t, ids) \<in> set (collect_fk fmtv rels rws d) \<and> i \<in> set ids)
     \<longleftrightarrow> (\<exists>ids. (t, ids) \<in> set d \<and> i \<in> set ids)
         \<or> (\<exists>rel \<in> set rels. (Type rel = ''one-to-one'' \<or> Type rel = ''one-to-many'')
               \<and> t = ToTable rel
               \<and> (\<exists>entry \<in> set rws. \<exists>fk. entry (FromColumn rel) = Some fk \<and> fk \<noteq> VNull
                      \<and> fmtv fk = i \<and> i \<noteq> []))"
proof (induction rels arbitrary: d)
  case Nil
  then show ?case by simp
next
  case (Cons rel rels)
  show ?case
  proof (cases "Type rel = ''one-to-one'' \<or> Type rel = ''one-to-many''")
    case False
    then show ?thesis using Cons.IH[of d] by auto
  next
    case True
    then have "collect_fk fmtv (rel # rels) rws d
        = collect_fk fmtv rels rws (collect_fk_rows fmtv rel rws d)" by auto
    then show ?thesis
      using Cons.IH[of "collect_fk_rows fmtv rel rws d"] True
        collect_fk_rows_demand[of t fmtv rel rws d i]
      by auto
  qed
qed

lemma resolve_rel_other:
  "col \<noteq> FromColumn rel \<Longrightarrow> resolve_rel fmtv toLower pt pd cache entry rel col = entry col"
  by (auto simp: resolve_rel_def split: option.splits)

lemma resolve_entry_other:
  "col \<notin> FromColumn ` set rels \<Longrightarrow> resolve_entry fmtv toLower pt pd cache rels entry col = entry col"
  unfolding resolve_entry_def
  by (induction rels arbitrary: entry) (auto simp: resolve_rel_other)

lemma resolve_entry_last:
  assumes "FromColumn rel \<notin> FromColumn ` set post"
  shows "resolve_entry fmtv toLower pt pd cache (pre @ rel # post) entry (FromColumn rel)
           = resolve_rel fmtv toLower pt pd cache (resolve_entry fmtv toLower pt pd cache pre entry) rel (FromColumn rel)"
proof -
  have "resolve_entry fmtv toLower pt pd cache (pre @ rel # post) entry
          = resolve_entry fmtv toLower pt pd cache post
              (resolve_rel fmtv toLower pt pd cache (resolve_entry fmtv toLower pt pd cache pre entry) rel)"
    by (simp add: resolve_entry_def)
  with assms show ?thesis by (simp add: resolve_entry_other)
qed


lemma resolve_rel_fk:
  assumes "Type rel = ''one-to-one'' \<or> Type rel = ''one-to-many''"
  shows "resolve_rel fmtv toLower pt pd cache entry rel
           = (case entry (FromColumn rel) of
                None \<Rightarrow> entry
              | Some fk \<Rightarrow>
                  if fk = VNull \<or> fmtv fk = [] then entry
                  else (case cache (ToTable rel @ '':'' @ fmtv fk) of
                          Some obj \<Rightarrow> entry(FromColumn rel \<mapsto> VObj obj)
                        | None \<Rightarrow> entry))"
  using assms by (auto simp: resolve_rel_def split: option.splits)



text \<open>
  C4, as the claim states it, fails in the list handler on a foreign key that is not nil
  but formats to the empty text: the row's \<^verbatim>\<open>author\<close> column holds the empty string, and
  pass 1 of the list handler registers no demand for the target table.
\<close>

theorem fk_empty_text_counterexample:
  "[''author'' \<mapsto> VStr []] ''author'' = Some (VStr []) \<and> VStr [] \<noteq> VNull
   \<and> collect_fk sprintv
        [\<lparr>Type = ''one-to-one'', FromColumn = ''author'', ToTable = ''users'',
          OnDelete = [], PivotTable = []\<rparr>]
        [[''author'' \<mapsto> VStr []]] [] = []"
  by simp

lemma item_collect_fk_demand:
  "(\<exists>ids. (t, ids) \<in> set (item_collect_fk fmtv rels item d) \<and> i \<in> set ids)
     \<longleftrightarrow> (\<exists>ids. (t, ids) \<in> set d \<and> i \<in> set ids)
         \<or> (\<exists>rel \<in> set rels. (Type rel = ''one-to-one'' \<or> Type rel = ''one-to-many'')
               \<and> t = ToTable rel
               \<and> (\<exists>fk. item (FromColumn rel) = Some fk \<and> fk \<noteq> VNull \<and> fmtv fk = i))"
proof (induction rels arbitrary: d)
  case Nil
  then show ?case by simp
next
  case (Cons rel rels)
  show ?case
  proof (cases "(Type rel = ''one-to-one'' \<or> Type rel = ''one-to-many'')
                 \<and> (\<exists>fk. item (FromColumn rel) = Some fk \<and> fk \<noteq> VNull)")
    case True
    then obtain fk where fk: "item (FromColumn rel) = Some fk" "fk \<noteq> VNull" by blast
    with True have "item_collect_fk fmtv (rel # rels) item d
        = item_collect_fk fmtv rels item (addFK d (ToTable rel) (fmtv fk))" by auto
    then show ?thesis
      using Cons.IH[of "addFK d (ToTable rel) (fmtv fk)"] True fk
      by (auto simp: addFK_demand)
  next
    case False
    then have "item_collect_fk fmtv (rel # rels) item d = item_collect_fk fmtv rels item d"
      by (auto split: option.splits)
    then show ?thesis using Cons.IH[of d] False by auto
  qed
qed

lemma item_resolve_rel_fk:
  assumes "Type rel = ''one-to-one'' \<or> Type rel = ''one-to-many''"
  shows "item_resolve_rel fmtv toLower pt ipd cache item rel
           = (case item (FromColumn rel) of
                None \<Rightarrow> item
              | Some fk \<Rightarrow>
                  if fk = VNull then item
                  else (case cache (ToTable rel @ '':'' @ fmtv fk) of
                          Some obj \<Rightarrow> item(FromColumn rel \<mapsto> VObj obj)
                        | None \<Rightarrow> item))"
  using assms by (auto simp: item_resolve_rel_def split: option.splits)

text \<open>
  C4, amended. The two handlers differ on a scalar that is not nil but formats to the
  empty text. In the list handler (\<^verbatim>\<open>GET /page/:id\<close>), pass 1 registers the pair of a
  target table and an id exactly when some one-to-one or one-to-many relation to that table
  and some row have, at the relation's source column, a scalar that is not nil and whose
  formatted text is that id and is not empty; in pass 2 such a scalar is replaced by the
  cached object when the cache has the key \<^verbatim>\<open>table:id\<close> and is left as it is otherwise, and
  a scalar that is absent, nil, or formats to the empty text is left as it is. In the item
  handler (\<^verbatim>\<open>GET /page/:id/:itemId\<close>), pass 1 registers the pair exactly when such a
  relation has at its source column a scalar that is not nil, whatever its text, and pass 2
  replaces a scalar that is not nil by the cached object when the cache has the key and
  leaves it as it is otherwise; a scalar that is absent or nil is left as it is. In the
  list handler the result of the step is what the output row holds at the column when no
  later relation writes the same column.
\<close>

theorem fk_demand_and_substitution:
  "((\<exists>ids. (t, ids) \<in> set (collect_fk fmtv rels rawRows []) \<and> i \<in> set ids)
      \<longleftrightarrow> (\<exists>r \<in> set rels. (Type r = ''one-to-one'' \<or> Type r = ''one-to-many'')
              \<and> t = ToTable r
              \<and> (\<exists>e \<in> set rawRows. \<exists>fk. e (FromColumn r) = Some fk \<and> fk \<noteq> VNull
                     \<and> fmtv fk = i \<and> i \<noteq> [])))
   \<and> ((\<exists>ids. (t, ids) \<in> set (item_collect_fk fmtv rels item []) \<and> i \<in> set ids)
      \<longleftrightarrow> (\<exists>r \<in> set rels. (Type r = ''one-to-one'' \<or> Type r = ''one-to-many'')
              \<and> t = ToTable r
              \<and> (\<exists>fk. item (FromColumn r) = Some fk \<and> fk \<noteq> VNull \<and> fmtv fk = i)))
   \<and> (Type rel = ''one-to-one'' \<or> Type rel = ''one-to-many'' \<longrightarrow>
        resolve_rel fmtv toLower pt pd cache entry rel
          = (case entry (FromColumn rel) of
               None \<Rightarrow> entry
             | Some fk \<Rightarrow>
                 if fk = VNull \<or> fmtv fk = [] then entry
                 else (case cache (ToTable rel @ '':'' @ fmtv fk) of
                         Some obj \<Rightarrow> entry(FromColumn rel \<mapsto> VObj obj)
                       | None \<Rightarrow> entry))
        \<and> item_resolve_rel fmtv toLower pt ipd cache item rel
          = (case item (FromColumn rel) of
               None \<Rightarrow> item
             | Some fk \<Rightarrow>
                 if fk = VNull then item
                 else (case cache (ToTable rel @ '':'' @ fmtv fk) of
                         Some obj \<Rightarrow> item(FromColumn rel \<mapsto> VObj obj)
                       | None \<Rightarrow> item))
        \<and> (FromColumn rel \<notin> FromColumn ` set post \<longrightarrow>
             resolve_entry fmtv toLower pt pd cache (pre @ rel # post) entry (FromColumn rel)
               = resolve_rel fmtv toLower pt pd cache
                   (resolve_entry fmtv toLower pt pd cache pre entry) rel (FromColumn rel)))"
proof -
  note p1 = collect_fk_demand[where t=t and fmtv=fmtv and rels=rels and rws=rawRows
      and d="[]" and i=i]
  note p2 = item_collect_fk_demand[where t=t and fmtv=fmtv and rels=rels and item=item
      and d="[]" and i=i]
  have s1: "Type rel = ''one-to-one'' \<or> Type rel = ''one-to-many'' \<Longrightarrow>
        resolve_rel fmtv toLower pt pd cache entry rel
          = (case entry (FromColumn rel) of
               None \<Rightarrow> entry
             | Some fk \<Rightarrow>
                 if fk = VNull \<or> fmtv fk = [] then entry
                 else (case cache (ToTable rel @ '':'' @ fmtv fk) of
                         Some obj \<Rightarrow> entry(FromColumn rel \<mapsto> VObj obj)
                       | None \<Rightarrow> entry))"
    by (rule resolve_rel_fk)
  have s2: "Type rel = ''one-to-one'' \<or> Type rel = ''one-to-many'' \<Longrightarrow>
        item_resolve_rel fmtv toLower pt ipd cache item rel
          = (case item (FromColumn rel) of
               None \<Rightarrow> item
             | Some fk \<Rightarrow>
                 if fk = VNull then item
                 else (case cache (ToTable rel @ '':'' @ fmtv fk) of
                         Some obj \<Rightarrow> item(FromColumn rel \<mapsto> VObj obj)
                       | None \<Rightarrow> item))"
    by (rule item_resolve_rel_fk)
  have s3: "FromColumn rel \<notin> FromColumn ` set post \<Longrightarrow>
             resolve_entry fmtv toLower pt pd cache (pre @ rel # post) entry (FromColumn rel)
               = resolve_rel fmtv toLower pt pd cache
                   (resolve_entry fmtv toLower pt pd cache pre entry) rel (FromColumn rel)"
    by (rule resolve_entry_last)
  from p1 p2 s1 s2 s3 show ?thesis by simp
qed

theorem fk_demand_and_substitution_witness:
  "collect_fk sprintv
     [\<lparr>Type = ''one-to-one'', FromColumn = ''author'', ToTable = ''users'',
       OnDelete = [], PivotTable = []\<rparr>]
     [[''id'' \<mapsto> VStr ''1'', ''author'' \<mapsto> VStr ''5''], [''id'' \<mapsto> VStr ''2'', ''author'' \<mapsto> VNull]]
     [] = [(''users'', [''5''])]
   \<and> item_collect_fk sprintv
     [\<lparr>Type = ''one-to-one'', FromColumn = ''author'', ToTable = ''users'',
       OnDelete = [], PivotTable = []\<rparr>]
     [''id'' \<mapsto> VStr ''3'', ''author'' \<mapsto> VStr []]
     [] = [(''users'', [[]])]
   \<and> resolve_rel sprintv ascii_lower ''pages'' Map.empty [''users:5'' \<mapsto> [''id'' \<mapsto> VStr ''5'']]
        [''id'' \<mapsto> VStr ''1'', ''author'' \<mapsto> VStr ''5'']
        \<lparr>Type = ''one-to-one'', FromColumn = ''author'', ToTable = ''users'',
         OnDelete = [], PivotTable = []\<rparr>
     = [''id'' \<mapsto> VStr ''1'', ''author'' \<mapsto> VObj [''id'' \<mapsto> VStr ''5'']]
   \<and> item_resolve_rel sprintv ascii_lower ''pages'' Map.empty [''users:5'' \<mapsto> [''id'' \<mapsto> VStr ''5'']]
        [''id'' \<mapsto> VStr ''2'', ''author'' \<mapsto> VNull]
        \<lparr>Type = ''one-to-one'', FromColumn = ''author'', ToTable = ''users'',
         OnDelete = [], PivotTable = []\<rparr>
     = [''id'' \<mapsto> VStr ''2'', ''author'' \<mapsto> VNull]"
  using fk_demand_and_substitution [where t="''users''" and fmtv=sprintv and toLower=ascii_lower
      and rels="[\<lparr>Type = ''one-to-one'', FromColumn = ''author'', ToTable = ''users'',
         OnDelete = [], PivotTable = []\<rparr>]"
      and rawRows="[[''id'' \<mapsto> VStr ''1'', ''author'' \<mapsto> VStr ''5''], [''id'' \<mapsto> VStr ''2'', ''author'' \<mapsto> VNull]]"
      and i="''5''"
      and rel="\<lparr>Type = ''one-to-one'', FromColumn = ''author'', ToTable = ''users'',
         OnDelete = [], PivotTable = []\<rparr>"
      and pt="''pages''" and pd=Map.empty and ipd=Map.empty
      and cache="[''users:5'' \<mapsto> [''id'' \<mapsto> VStr ''5'']]"
      and entry="[''id'' \<mapsto> VStr ''1'', ''author'' \<mapsto> VStr ''5'']"
      and item="[''id'' \<mapsto> VStr ''2'', ''author'' \<mapsto> VNull]"
      and pre="[]" and post="[]"]
  by simp

section \<open>The pivot query of the list handler\<close>

text \<open>
  C2. The list handler builds the pivot query by writing the row ids into the query text:
  for the page table \<^verbatim>\<open>pages\<close> with a many-to-many relation on \<^verbatim>\<open>tags\<close>, the statement
  issued for the row id \<^verbatim>\<open>1\<close> has the id between single quotes in its text and no bound
  argument, and the text for the row id \<^verbatim>\<open>2\<close> is a different one. The loader's query, in
  contrast, depends only on the table and the number of ids.
\<close>

theorem pivot_query_interpolates_ids:
  "issued (snd (load_pivots (table_driver []) ascii_lower ''pages'' [''1'']
       [\<lparr>Type = ''many-to-many'', FromColumn = ''tags'', ToTable = ''tags'',
         OnDelete = [], PivotTable = []\<rparr>]
       (Map.empty, \<lparr>store = (), issued = []\<rparr>)))
     = [(''SELECT left_id, right_id FROM '' @ [CHR 0x22] @ ''pages_tags_tags'' @ [CHR 0x22]
          @ '' WHERE left_id IN ('' @ [CHR 0x27] @ ''1'' @ [CHR 0x27] @ '')'', [])]
   \<and> issued (snd (load_pivots (table_driver []) ascii_lower ''pages'' [''2'']
       [\<lparr>Type = ''many-to-many'', FromColumn = ''tags'', ToTable = ''tags'',
         OnDelete = [], PivotTable = []\<rparr>]
       (Map.empty, \<lparr>store = (), issued = []\<rparr>)))
     = [(''SELECT left_id, right_id FROM '' @ [CHR 0x22] @ ''pages_tags_tags'' @ [CHR 0x22]
          @ '' WHERE left_id IN ('' @ [CHR 0x27] @ ''2'' @ [CHR 0x27] @ '')'', [])]
   \<and> pivot_query ''pages_tags_tags'' [''1''] \<noteq> pivot_query ''pages_tags_tags'' [''2'']
   \<and> fst (hd (issued (snd (batchLoadRelated sprintv (table_driver [])
          \<lparr>store = (), issued = []\<rparr> [(''tags'', [''1''])]))))
     = fst (hd (issued (snd (batchLoadRelated sprintv (table_driver [])
          \<lparr>store = (), issued = []\<rparr> [(''tags'', [''2''])]))))"
  by (simp add: run_def table_driver_def pivot_query_def pivotTableName_def ascii_lower_def
       lower_char_def quoteIdent_def dq_def sq_def batchLoadRelated_def)

end
